theory Spec2Isabelle
  imports Main
begin

section \<open>JavaScript values\<close>

text \<open>
  The library works on what the test author passes in: \<^verbatim>\<open>Record<string, any>\<close>.
  A value is \<^verbatim>\<open>undefined\<close>, \<^verbatim>\<open>null\<close>, a boolean, a number, a string, an array, a
  plain object or a function.

  \<^item> Numbers are the integers (printed in decimal); fractions, \<^verbatim>\<open>NaN\<close> and the
    infinities are outside the model.
  \<^item> A string is a list of characters.
  \<^item> An object is the list of its own enumerable properties in the order in which the
    runtime enumerates them (the order \<^verbatim>\<open>JSON.stringify\<close> prints); a lookup takes the
    first entry of a key.
  \<^item> A function is kept only as the text \<^verbatim>\<open>String(f)\<close> gives for it.
\<close>

datatype jsvalue =
    JUndefined
  | JNull
  | JBool bool
  | JNum int
  | JStr string
  | JArr "jsvalue list"
  | JObj "(string \<times> jsvalue) list"
  | JFunction string

text \<open>What can be thrown: an \<^verbatim>\<open>Error\<close> with its message, or the runtime's \<^verbatim>\<open>TypeError\<close>.\<close>

datatype js_error = Error string | TypeError string

text \<open>
  What the runtime does for a key that is not stored in the value itself: the members a
  value inherits (\<^verbatim>\<open>toString\<close>, \<^verbatim>\<open>constructor\<close>, \<^verbatim>\<open>map\<close>, ...), the own properties of a
  function, and accessor properties, whose getter runs on the read. Such a read gives a
  value or throws (a getter that throws, \<^verbatim>\<open>caller\<close> of a strict function). This table
  belongs to the JavaScript runtime, not to the repository, so every function below
  that reads a property takes it as a parameter; it answers \<open>Inr JUndefined\<close> where the
  runtime has nothing.
\<close>

type_synonym runtime = "jsvalue \<Rightarrow> string \<Rightarrow> js_error + jsvalue"

subsection \<open>Numbers as text\<close>

fun show_nat :: "nat \<Rightarrow> string" where
  "show_nat n =
     (if n < 10 then [''0123456789'' ! n]
      else show_nat (n div 10) @ [''0123456789'' ! (n mod 10)])"

declare show_nat.simps [simp del]

definition show_int :: "int \<Rightarrow> string" where
  "show_int i = (if i < 0 then CHR ''-'' # show_nat (nat (- i)) else show_nat (nat i))"

subsection \<open>Property access\<close>

definition nullish :: "jsvalue \<Rightarrow> bool" where
  "nullish v = (v = JUndefined \<or> v = JNull)"

text \<open>
  The properties a value of the document stores: the entries of an object, and the
  elements of an array under the keys \<^verbatim>\<open>"0"\<close>, \<^verbatim>\<open>"1"\<close>, ... (the decimal text of the
  index, so \<^verbatim>\<open>"01"\<close> is not an index).
\<close>

fun stored_member :: "jsvalue \<Rightarrow> string \<Rightarrow> jsvalue option" where
  "stored_member (JObj kvs) key = map_of kvs key"
| "stored_member (JArr xs) key = map_of (zip (map show_nat [0..<length xs]) xs) key"
| "stored_member _ key = None"

text \<open>
  The properties a value has without storing them: the length of an array, the
  characters and the length of a string, and whatever the runtime adds.
\<close>

fun runtime_member :: "runtime \<Rightarrow> jsvalue \<Rightarrow> string \<Rightarrow> js_error + jsvalue" where
  "runtime_member rt (JArr xs) key =
     (if key = ''length'' then Inr (JNum (int (length xs))) else rt (JArr xs) key)"
| "runtime_member rt (JStr s) key =
     (case map_of (zip (map show_nat [0..<length s]) (map (\<lambda>c. JStr [c]) s)) key of
        Some ch \<Rightarrow> Inr ch
      | None \<Rightarrow> if key = ''length'' then Inr (JNum (int (length s))) else rt (JStr s) key)"
| "runtime_member rt v key = rt v key"

text \<open>
  \<^verbatim>\<open>acc[key]\<close>: reading a property of \<^verbatim>\<open>undefined\<close> or \<^verbatim>\<open>null\<close> throws a TypeError; a
  stored property gives its value; any other read gives or throws what the runtime does.
\<close>

definition member :: "runtime \<Rightarrow> jsvalue \<Rightarrow> string \<Rightarrow> js_error + jsvalue" where
  "member rt acc key =
     (if nullish acc then Inl (TypeError ''Cannot read properties of undefined or null'')
      else (case stored_member acc key of
              Some v \<Rightarrow> Inr v
            | None \<Rightarrow> runtime_member rt acc key))"

text \<open>\<^verbatim>\<open>acc?.[key]\<close>: the optional chain answers \<^verbatim>\<open>undefined\<close> before the read is tried.\<close>

definition opt_member :: "runtime \<Rightarrow> jsvalue \<Rightarrow> string \<Rightarrow> js_error + jsvalue" where
  "opt_member rt acc key = (if nullish acc then Inr JUndefined else member rt acc key)"

section \<open>The path resolver (utils.ts)\<close>

definition is_digit :: "char \<Rightarrow> bool" where
  "is_digit c = (c \<in> set ''0123456789'')"

text \<open>
  \<^verbatim>\<open>path.replace(/\[(\d+)\]/g, ".$1")\<close>: scanning from the left, an opening bracket
  followed by one or more digits and a closing bracket becomes a dot and the digits, and
  the scan goes on behind the match; any other character is kept.
\<close>

function replace_index :: "string \<Rightarrow> string" where
  "replace_index [] = []"
| "replace_index (c # cs) =
     (if c = CHR ''['' \<and> takeWhile is_digit cs \<noteq> [] \<and>
         (case dropWhile is_digit cs of [] \<Rightarrow> False | d # _ \<Rightarrow> d = CHR '']'')
      then CHR ''.'' # takeWhile is_digit cs @ replace_index (tl (dropWhile is_digit cs))
      else c # replace_index cs)"
  by pat_completeness auto
termination
proof (relation "measure length")
  fix c :: char and cs :: string
  have "length (dropWhile is_digit cs) \<le> length cs"
    by (rule length_dropWhile_le)
  then have "length (tl (dropWhile is_digit cs)) \<le> length cs"
    by simp
  then show "(tl (dropWhile is_digit cs), c # cs) \<in> measure length"
    by simp
qed simp_all

text \<open>\<^verbatim>\<open>.split(".")\<close>: the pieces between the dots; the empty string gives one empty piece.\<close>

fun split_dot :: "string \<Rightarrow> string list" where
  "split_dot [] = [[]]"
| "split_dot (c # cs) =
     (if c = CHR ''.'' then [] # split_dot cs
      else (case split_dot cs of w # ws \<Rightarrow> (c # w) # ws | [] \<Rightarrow> [[c]]))"

text \<open>\<^verbatim>\<open>.reduce((acc, key) => acc?.[key], obj)\<close>, stopping at the first throw.\<close>

fun reduce_path :: "runtime \<Rightarrow> string list \<Rightarrow> jsvalue \<Rightarrow> js_error + jsvalue" where
  "reduce_path rt [] acc = Inr acc"
| "reduce_path rt (key # keys) acc =
     (case opt_member rt acc key of
        Inl e \<Rightarrow> Inl e
      | Inr v \<Rightarrow> reduce_path rt keys v)"

text \<open>The body of the \<^verbatim>\<open>try\<close> block.\<close>

definition getValueAtPath_try :: "runtime \<Rightarrow> jsvalue \<Rightarrow> string \<Rightarrow> js_error + jsvalue" where
  "getValueAtPath_try rt obj path = reduce_path rt (split_dot (replace_index path)) obj"

text \<open>\<^verbatim>\<open>try { return ... } catch { return undefined; }\<close>\<close>

definition getValueAtPath :: "runtime \<Rightarrow> jsvalue \<Rightarrow> string \<Rightarrow> jsvalue" where
  "getValueAtPath rt obj path =
     (case getValueAtPath_try rt obj path of
        Inl _ \<Rightarrow> JUndefined
      | Inr v \<Rightarrow> v)"

section \<open>What the assertions use from the runtime\<close>

subsection \<open>JSON.stringify\<close>

fun join :: "string \<Rightarrow> string list \<Rightarrow> string" where
  "join sep [] = []"
| "join sep [x] = x"
| "join sep (x # y # ys) = x @ sep @ join sep (y # ys)"

text \<open>
  A character inside a JSON string: the double quote and the backslash are escaped,
  control characters get their short escape or \<^verbatim>\<open>\u00XX\<close>, anything else is itself.
\<close>

definition quote_char :: "char \<Rightarrow> string" where
  "quote_char c =
     (if c = CHR 0x22 then [CHR 0x5C, CHR 0x22]
      else if c = CHR 0x5C then [CHR 0x5C, CHR 0x5C]
      else if c = CHR 0x08 then [CHR 0x5C, CHR ''b'']
      else if c = CHR 0x09 then [CHR 0x5C, CHR ''t'']
      else if c = CHR 0x0A then [CHR 0x5C, CHR ''n'']
      else if c = CHR 0x0C then [CHR 0x5C, CHR ''f'']
      else if c = CHR 0x0D then [CHR 0x5C, CHR ''r'']
      else if (of_char c :: nat) < 32
        then [CHR 0x5C, CHR ''u'', CHR ''0'', CHR ''0'',
              ''0123456789abcdef'' ! (of_char c div 16), ''0123456789abcdef'' ! (of_char c mod 16)]
      else [c])"

definition quote :: "string \<Rightarrow> string" where
  "quote s = CHR 0x22 # concat (map quote_char s) @ [CHR 0x22]"

text \<open>
  \<^verbatim>\<open>JSON.stringify(v)\<close>. The result is \<^verbatim>\<open>undefined\<close> (\<open>None\<close>) for \<^verbatim>\<open>undefined\<close> and for a
  function; inside an array such a value prints as \<^verbatim>\<open>null\<close>, inside an object its
  property is left out. The properties of an object are printed in their order.
\<close>

fun JSON_stringify :: "jsvalue \<Rightarrow> string option"
  and stringify_elements :: "jsvalue list \<Rightarrow> string list"
  and stringify_entries :: "(string \<times> jsvalue) list \<Rightarrow> string list" where
  "JSON_stringify JUndefined = None"
| "JSON_stringify JNull = Some ''null''"
| "JSON_stringify (JBool b) = Some (if b then ''true'' else ''false'')"
| "JSON_stringify (JNum n) = Some (show_int n)"
| "JSON_stringify (JStr s) = Some (quote s)"
| "JSON_stringify (JArr xs) = Some (''['' @ join '','' (stringify_elements xs) @ '']'')"
| "JSON_stringify (JObj kvs) = Some (''{'' @ join '','' (stringify_entries kvs) @ ''}'')"
| "JSON_stringify (JFunction f) = None"
| "stringify_elements [] = []"
| "stringify_elements (x # xs) =
     (case JSON_stringify x of None \<Rightarrow> ''null'' | Some s \<Rightarrow> s) # stringify_elements xs"
| "stringify_entries [] = []"
| "stringify_entries (kv # kvs) =
     (case JSON_stringify (snd kv) of
        None \<Rightarrow> stringify_entries kvs
      | Some s \<Rightarrow> (quote (fst kv) @ '':'' @ s) # stringify_entries kvs)"

text \<open>A value inside a template literal: \<^verbatim>\<open>`${JSON.stringify(v)}`\<close>.\<close>

definition template :: "string option \<Rightarrow> string" where
  "template r = (case r of None \<Rightarrow> ''undefined'' | Some s \<Rightarrow> s)"

subsection \<open>typeof, Array.isArray, truthiness, String, toLowerCase, includes\<close>

fun typeof :: "jsvalue \<Rightarrow> string" where
  "typeof JUndefined = ''undefined''"
| "typeof JNull = ''object''"
| "typeof (JBool b) = ''boolean''"
| "typeof (JNum n) = ''number''"
| "typeof (JStr s) = ''string''"
| "typeof (JArr xs) = ''object''"
| "typeof (JObj kvs) = ''object''"
| "typeof (JFunction f) = ''function''"

fun isArray :: "jsvalue \<Rightarrow> bool" where
  "isArray (JArr xs) = True"
| "isArray _ = False"

text \<open>\<^verbatim>\<open>!!value\<close>\<close>

fun truthy :: "jsvalue \<Rightarrow> bool" where
  "truthy JUndefined = False"
| "truthy JNull = False"
| "truthy (JBool b) = b"
| "truthy (JNum n) = (n \<noteq> 0)"
| "truthy (JStr s) = (s \<noteq> [])"
| "truthy _ = True"

text \<open>\<^verbatim>\<open>String(v)\<close>; an array joins its elements with commas, an empty text for
  \<^verbatim>\<open>undefined\<close> and \<^verbatim>\<open>null\<close>.\<close>

fun String_of :: "jsvalue \<Rightarrow> string"
  and String_of_elements :: "jsvalue list \<Rightarrow> string list" where
  "String_of JUndefined = ''undefined''"
| "String_of JNull = ''null''"
| "String_of (JBool b) = (if b then ''true'' else ''false'')"
| "String_of (JNum n) = show_int n"
| "String_of (JStr s) = s"
| "String_of (JArr xs) = join '','' (String_of_elements xs)"
| "String_of (JObj kvs) = ''[object Object]''"
| "String_of (JFunction f) = f"
| "String_of_elements [] = []"
| "String_of_elements (x # xs) =
     (if x = JUndefined \<or> x = JNull then [] else String_of x) # String_of_elements xs"

text \<open>\<^verbatim>\<open>toLowerCase\<close> on the letters A to Z (the strings of the model are ASCII).\<close>

definition lower_char :: "char \<Rightarrow> char" where
  "lower_char c =
     (if 65 \<le> (of_char c :: nat) \<and> (of_char c :: nat) \<le> 90 then char_of (of_char c + (32 :: nat)) else c)"

definition toLowerCase :: "string \<Rightarrow> string" where
  "toLowerCase s = map lower_char s"

fun starts_with :: "string \<Rightarrow> string \<Rightarrow> bool" where
  "starts_with s [] = True"
| "starts_with [] (p # ps) = False"
| "starts_with (c # cs) (p # ps) = (c = p \<and> starts_with cs ps)"

text \<open>\<^verbatim>\<open>s.includes(part)\<close>\<close>

fun str_includes :: "string \<Rightarrow> string \<Rightarrow> bool" where
  "str_includes [] part = (part = [])"
| "str_includes (c # cs) part = (starts_with (c # cs) part \<or> str_includes cs part)"

section \<open>The assertion object (assertJson.ts)\<close>

subsection \<open>The error arrays\<close>

text \<open>
  \<^verbatim>\<open>errors\<close> is an array that several assertion objects can hold at once, and
  \<^verbatim>\<open>push\<close> changes it for all of them. So an assertion object holds the address of its
  array, and the arrays live in a heap that every operation takes and gives back.
\<close>

record heap =
  cells :: "nat \<Rightarrow> js_error list"
  fresh :: nat

definition empty_heap :: heap where
  "empty_heap = \<lparr>cells = (\<lambda>a. []), fresh = 0\<rparr>"

text \<open>\<^verbatim>\<open>[]\<close>: a new, empty array.\<close>

definition new_array :: "heap \<Rightarrow> nat \<times> heap" where
  "new_array h = (fresh h, h\<lparr>cells := (cells h)(fresh h := []), fresh := Suc (fresh h)\<rparr>)"

text \<open>\<^verbatim>\<open>array.push(err)\<close>\<close>

definition push :: "nat \<Rightarrow> js_error \<Rightarrow> heap \<Rightarrow> heap" where
  "push a err h = h\<lparr>cells := (cells h)(a := cells h a @ [err])\<rparr>"

subsection \<open>Options and fields\<close>

record SoftOptions =
  soft_opt :: "bool option"
  maxErrors_opt :: "int option"

record MatchValueOptions =
  caseInsensitive :: "bool option"

record JsonAssertion =
  target :: jsvalue
  negated :: bool
  soft :: bool
  errors :: nat
  maxErrors :: "int option"

text \<open>The result of a method: what it throws or what it returns, and the heap it leaves.\<close>

type_synonym 'a outcome = "(js_error + 'a) \<times> heap"

subsection \<open>Construction and negation\<close>

definition new_JsonAssertion ::
  "jsvalue \<Rightarrow> SoftOptions option \<Rightarrow> nat option \<Rightarrow> int option \<Rightarrow> heap \<Rightarrow> JsonAssertion \<times> heap" where
  "new_JsonAssertion tgt opts sharedErrors sharedMaxErrors h =
     (let (arr, h') = new_array h;
          this = \<lparr>target = tgt, negated = False, soft = False, errors = arr, maxErrors = None\<rparr>;
          this = (if (case opts of None \<Rightarrow> False | Some opt \<Rightarrow> soft_opt opt = Some True)
                  then this\<lparr>soft := True\<rparr> else this);
          this = (if soft this
                  then (case sharedErrors of None \<Rightarrow> this | Some shared \<Rightarrow> this\<lparr>errors := shared\<rparr>)
                  else this);
          this = (if soft this
                  then this\<lparr>maxErrors :=
                         (case sharedMaxErrors of
                            Some m \<Rightarrow> Some m
                          | None \<Rightarrow> (case opts of None \<Rightarrow> None | Some opt \<Rightarrow> maxErrors_opt opt))\<rparr>
                  else this)
      in (this, h'))"

text \<open>\<^verbatim>\<open>get not()\<close>\<close>

definition "not" :: "JsonAssertion \<Rightarrow> heap \<Rightarrow> JsonAssertion \<times> heap" where
  "not this h =
     (let (clone, h') =
            new_JsonAssertion (target this)
              (Some \<lparr>soft_opt = Some (soft this), maxErrors_opt = maxErrors this\<rparr>)
              (if soft this then Some (errors this) else None)
              (if soft this then maxErrors this else None) h
      in (clone\<lparr>negated := \<not> negated this\<rparr>, h'))"

definition isSoft :: "JsonAssertion \<Rightarrow> bool" where
  "isSoft this = soft this"

text \<open>\<^verbatim>\<open>getErrors()\<close>: a copy of the array, so a value.\<close>

definition getErrors :: "JsonAssertion \<Rightarrow> heap \<Rightarrow> js_error list" where
  "getErrors this h = cells h (errors this)"

definition canCollectError :: "JsonAssertion \<Rightarrow> heap \<Rightarrow> bool" where
  "canCollectError this h =
     (\<not> soft this \<or> maxErrors this = None
      \<or> (case maxErrors this of None \<Rightarrow> False | Some m \<Rightarrow> int (length (cells h (errors this))) < m))"

definition capacity_message :: "int \<Rightarrow> string" where
  "capacity_message m =
     ''Maximum number of errors ('' @ show_int m
       @ '') reached in soft mode. Further assertions throw immediately.''"

definition handleError :: "JsonAssertion \<Rightarrow> js_error \<Rightarrow> heap \<Rightarrow> JsonAssertion outcome" where
  "handleError this err h =
     (if soft this then
        (if (case maxErrors this of None \<Rightarrow> False | Some m \<Rightarrow> int (length (cells h (errors this))) \<ge> m)
         then (Inl (Error (capacity_message (case maxErrors this of Some m \<Rightarrow> m | None \<Rightarrow> 0))), h)
         else (Inr this, push (errors this) err h))
      else (Inl err, h))"

subsection \<open>The checks\<close>

text \<open>The two pieces every message is built from: \<^verbatim>\<open>'${path}'\<close> and
  \<^verbatim>\<open>${this.negated ? "not " : ""}\<close>.\<close>

definition quoted :: "string \<Rightarrow> string" where
  "quoted s = CHR 0x27 # s @ [CHR 0x27]"

definition not_word :: "JsonAssertion \<Rightarrow> string" where
  "not_word this = (if negated this then ''not '' else [])"

definition toHaveKey :: "runtime \<Rightarrow> JsonAssertion \<Rightarrow> string \<Rightarrow> heap \<Rightarrow> JsonAssertion outcome" where
  "toHaveKey rt this path h =
     (let value = getValueAtPath rt (target this) path;
          exists = (value \<noteq> JUndefined)
      in if exists = negated this
         then handleError this
                (Error (''Expected key '' @ quoted path @ '' '' @ not_word this @ ''to exist'')) h
         else (Inr this, h))"

definition toBeType ::
  "runtime \<Rightarrow> JsonAssertion \<Rightarrow> string \<Rightarrow> string \<Rightarrow> heap \<Rightarrow> JsonAssertion outcome" where
  "toBeType rt this path type h =
     (let value = getValueAtPath rt (target this) path;
          actualType = (if value = JNull then ''null''
                        else if isArray value then ''array'' else typeof value);
          match = (actualType = type)
      in if match = negated this
         then handleError this
                (Error (''Expected '' @ quoted path @ '' '' @ not_word this @ ''to be type ''
                          @ quoted type @ '', but got '' @ quoted actualType)) h
         else (Inr this, h))"

definition toBeDefined :: "runtime \<Rightarrow> JsonAssertion \<Rightarrow> string \<Rightarrow> heap \<Rightarrow> JsonAssertion outcome" where
  "toBeDefined rt this path h =
     (let value = getValueAtPath rt (target this) path;
          isDefined = (value \<noteq> JUndefined)
      in if isDefined = negated this
         then handleError this
                (Error (''Expected '' @ quoted path @ '' '' @ not_word this @ ''to be defined'')) h
         else (Inr this, h))"

definition toBeNull :: "runtime \<Rightarrow> JsonAssertion \<Rightarrow> string \<Rightarrow> heap \<Rightarrow> JsonAssertion outcome" where
  "toBeNull rt this path h =
     (let value = getValueAtPath rt (target this) path;
          isNull = (value = JNull)
      in if isNull = negated this
         then handleError this
                (Error (''Expected '' @ quoted path @ '' '' @ not_word this @ ''to be null'')) h
         else (Inr this, h))"

definition toBeTruthy :: "runtime \<Rightarrow> JsonAssertion \<Rightarrow> string \<Rightarrow> heap \<Rightarrow> JsonAssertion outcome" where
  "toBeTruthy rt this path h =
     (let value = getValueAtPath rt (target this) path;
          isTruthy = truthy value
      in if isTruthy = negated this
         then handleError this
                (Error (''Expected '' @ quoted path @ '' '' @ not_word this @ ''to be truthy'')) h
         else (Inr this, h))"

definition toBeFalsy :: "runtime \<Rightarrow> JsonAssertion \<Rightarrow> string \<Rightarrow> heap \<Rightarrow> JsonAssertion outcome" where
  "toBeFalsy rt this path h =
     (let value = getValueAtPath rt (target this) path;
          isFalsy = (\<not> truthy value)
      in if isFalsy = negated this
         then handleError this
                (Error (''Expected '' @ quoted path @ '' '' @ not_word this @ ''to be falsy'')) h
         else (Inr this, h))"

text \<open>\<^verbatim>\<open>options?.caseInsensitive\<close> as a condition.\<close>

definition caseInsensitive_set :: "MatchValueOptions option \<Rightarrow> bool" where
  "caseInsensitive_set options =
     (case options of None \<Rightarrow> False | Some opt \<Rightarrow> caseInsensitive opt = Some True)"

definition toMatchValue ::
  "runtime \<Rightarrow> JsonAssertion \<Rightarrow> string \<Rightarrow> jsvalue \<Rightarrow> MatchValueOptions option \<Rightarrow> heap
     \<Rightarrow> JsonAssertion outcome" where
  "toMatchValue rt this path expected options h =
     (let value = getValueAtPath rt (target this) path;
          match =
            (if caseInsensitive_set options \<and> typeof value = ''string'' \<and> typeof expected = ''string''
             then toLowerCase (String_of value) = toLowerCase (String_of expected)
             else JSON_stringify value = JSON_stringify expected)
      in if match = negated this
         then handleError this
                (Error (''Expected value at '' @ quoted path @ '' '' @ not_word this @ ''to equal ''
                          @ template (JSON_stringify expected)
                          @ (if caseInsensitive_set options then '' (case insensitive)'' else [])
                          @ '', but got '' @ template (JSON_stringify value))) h
         else (Inr this, h))"

definition toContainValue ::
  "runtime \<Rightarrow> JsonAssertion \<Rightarrow> string \<Rightarrow> jsvalue \<Rightarrow> heap \<Rightarrow> JsonAssertion outcome" where
  "toContainValue rt this path expected h =
     (let value = getValueAtPath rt (target this) path;
          contains =
            (case value of
               JArr xs \<Rightarrow> list_ex (\<lambda>v. JSON_stringify v = JSON_stringify expected) xs
             | JStr s \<Rightarrow> str_includes s (String_of expected)
             | _ \<Rightarrow> False)
      in if contains = negated this
         then handleError this
                (Error (''Expected value at '' @ quoted path @ '' '' @ not_word this @ ''to contain ''
                          @ template (JSON_stringify expected)
                          @ '', but got '' @ template (JSON_stringify value))) h
         else (Inr this, h))"

definition toBeGreaterThan ::
  "runtime \<Rightarrow> JsonAssertion \<Rightarrow> string \<Rightarrow> int \<Rightarrow> heap \<Rightarrow> JsonAssertion outcome" where
  "toBeGreaterThan rt this path num h =
     (let value = getValueAtPath rt (target this) path;
          isGreater = (case value of JNum n \<Rightarrow> n > num | _ \<Rightarrow> False)
      in if isGreater = negated this
         then handleError this
                (Error (''Expected value at '' @ quoted path @ '' '' @ not_word this
                          @ ''to be greater than '' @ show_int num
                          @ '', but got '' @ template (JSON_stringify value))) h
         else (Inr this, h))"

definition toBeLessThan ::
  "runtime \<Rightarrow> JsonAssertion \<Rightarrow> string \<Rightarrow> int \<Rightarrow> heap \<Rightarrow> JsonAssertion outcome" where
  "toBeLessThan rt this path num h =
     (let value = getValueAtPath rt (target this) path;
          isLess = (case value of JNum n \<Rightarrow> n < num | _ \<Rightarrow> False)
      in if isLess = negated this
         then handleError this
                (Error (''Expected value at '' @ quoted path @ '' '' @ not_word this
                          @ ''to be less than '' @ show_int num
                          @ '', but got '' @ template (JSON_stringify value))) h
         else (Inr this, h))"

definition toBeOneOf ::
  "runtime \<Rightarrow> JsonAssertion \<Rightarrow> string \<Rightarrow> jsvalue list \<Rightarrow> heap \<Rightarrow> JsonAssertion outcome" where
  "toBeOneOf rt this path values h =
     (let value = getValueAtPath rt (target this) path;
          found = list_ex (\<lambda>v. JSON_stringify v = JSON_stringify value) values
      in if found = negated this
         then handleError this
                (Error (''Expected value at '' @ quoted path @ '' '' @ not_word this
                          @ ''to be one of '' @ template (JSON_stringify (JArr values))
                          @ '', but got '' @ template (JSON_stringify value))) h
         else (Inr this, h))"

text \<open>
  The caller's predicate returns a boolean or throws; what it throws is thrown on by
  the \<^verbatim>\<open>catch\<close> block.
\<close>

definition toSatisfy ::
  "runtime \<Rightarrow> JsonAssertion \<Rightarrow> string \<Rightarrow> (jsvalue \<Rightarrow> js_error + bool) \<Rightarrow> heap
     \<Rightarrow> JsonAssertion outcome" where
  "toSatisfy rt this path predicate h =
     (let value = getValueAtPath rt (target this) path
      in case predicate value of
           Inl err \<Rightarrow> (Inl err, h)
         | Inr result \<Rightarrow>
             if result = negated this
             then handleError this
                    (Error (''Expected '' @ quoted path @ '' '' @ not_word this
                              @ ''to satisfy predicate.'')) h
             else (Inr this, h))"

subsection \<open>Entry points\<close>

definition assertJson :: "jsvalue \<Rightarrow> SoftOptions option \<Rightarrow> heap \<Rightarrow> JsonAssertion \<times> heap" where
  "assertJson data opts h = new_JsonAssertion data opts None None h"

text \<open>\<^verbatim>\<open>{ ...opts, soft: true }\<close>\<close>

definition assertJsonSoft :: "jsvalue \<Rightarrow> SoftOptions option \<Rightarrow> heap \<Rightarrow> JsonAssertion \<times> heap" where
  "assertJsonSoft data opts h =
     new_JsonAssertion data
       (Some \<lparr>soft_opt = Some True,
              maxErrors_opt = (case opts of None \<Rightarrow> None | Some opt \<Rightarrow> maxErrors_opt opt)\<rparr>)
       None None h"

section \<open>Chains of calls\<close>

text \<open>
  A check with its arguments, and a chain as the caller writes it:
  \<^verbatim>\<open>a.toHaveKey(p).not.toBeNull(q)\<close> is \<open>[Call (ToHaveKey p), GetNot, Call (ToBeNull q)]\<close>.
  Each call is made on what the call before it returned, and a throw ends the chain.
\<close>

datatype check =
    ToHaveKey string
  | ToBeType string string
  | ToBeDefined string
  | ToBeNull string
  | ToBeTruthy string
  | ToBeFalsy string
  | ToMatchValue string jsvalue "MatchValueOptions option"
  | ToContainValue string jsvalue
  | ToBeGreaterThan string int
  | ToBeLessThan string int
  | ToBeOneOf string "jsvalue list"
  | ToSatisfy string "jsvalue \<Rightarrow> js_error + bool"

fun call :: "runtime \<Rightarrow> check \<Rightarrow> JsonAssertion \<Rightarrow> heap \<Rightarrow> JsonAssertion outcome" where
  "call rt (ToHaveKey path) this h = toHaveKey rt this path h"
| "call rt (ToBeType path type) this h = toBeType rt this path type h"
| "call rt (ToBeDefined path) this h = toBeDefined rt this path h"
| "call rt (ToBeNull path) this h = toBeNull rt this path h"
| "call rt (ToBeTruthy path) this h = toBeTruthy rt this path h"
| "call rt (ToBeFalsy path) this h = toBeFalsy rt this path h"
| "call rt (ToMatchValue path expected options) this h = toMatchValue rt this path expected options h"
| "call rt (ToContainValue path expected) this h = toContainValue rt this path expected h"
| "call rt (ToBeGreaterThan path num) this h = toBeGreaterThan rt this path num h"
| "call rt (ToBeLessThan path num) this h = toBeLessThan rt this path num h"
| "call rt (ToBeOneOf path values) this h = toBeOneOf rt this path values h"
| "call rt (ToSatisfy path predicate) this h = toSatisfy rt this path predicate h"

datatype link = GetNot | Call check

fun chain :: "runtime \<Rightarrow> link list \<Rightarrow> JsonAssertion \<Rightarrow> heap \<Rightarrow> JsonAssertion outcome" where
  "chain rt [] this h = (Inr this, h)"
| "chain rt (GetNot # links) this h = (case not this h of (clone, h') \<Rightarrow> chain rt links clone h')"
| "chain rt (Call c # links) this h =
     (case call rt c this h of
        (Inl err, h') \<Rightarrow> (Inl err, h')
      | (Inr next, h') \<Rightarrow> chain rt links next h')"

text \<open>A runtime that adds no member of its own, for running examples.\<close>

definition no_runtime :: runtime where
  "no_runtime v key = Inr JUndefined"

text \<open>A runtime in which every object has an accessor \<^verbatim>\<open>boom\<close> whose getter throws.\<close>

definition getter_runtime :: runtime where
  "getter_runtime v key =
     (if key = ''boom'' then Inl (Error ''getter failed'') else Inr JUndefined)"

section \<open>Notions the properties are stated with\<close>

text \<open>
  The values a document stores: the document itself, the elements of its arrays and the
  values of its objects, at any depth.
\<close>

fun stored_values :: "jsvalue \<Rightarrow> jsvalue list"
  and stored_in_elements :: "jsvalue list \<Rightarrow> jsvalue list"
  and stored_in_entries :: "(string \<times> jsvalue) list \<Rightarrow> jsvalue list" where
  "stored_values (JArr xs) = JArr xs # stored_in_elements xs"
| "stored_values (JObj kvs) = JObj kvs # stored_in_entries kvs"
| "stored_values v = [v]"
| "stored_in_elements [] = []"
| "stored_in_elements (x # xs) = stored_values x @ stored_in_elements xs"
| "stored_in_entries [] = []"
| "stored_in_entries (kv # kvs) = stored_values (snd kv) @ stored_in_entries kvs"

text \<open>
  Following the keys from a value as the resolver does: the value that the last read of
  a property not stored (a length, a character of a string, an inherited member) gave,
  if a step made such a read. \<open>seen\<close> is that value for the steps already taken.
\<close>

fun runtime_value :: "runtime \<Rightarrow> jsvalue option \<Rightarrow> string list \<Rightarrow> jsvalue \<Rightarrow> jsvalue option" where
  "runtime_value rt seen [] acc = seen"
| "runtime_value rt seen (key # keys) acc =
     (if nullish acc then seen
      else (case stored_member acc key of
              Some v \<Rightarrow> runtime_value rt seen keys v
            | None \<Rightarrow>
                (case runtime_member rt acc key of
                   Inl e \<Rightarrow> seen
                 | Inr w \<Rightarrow> runtime_value rt (Some w) keys w)))"

text \<open>A key without a dot and without an opening bracket.\<close>

definition plain_key :: "string \<Rightarrow> bool" where
  "plain_key k = (CHR ''.'' \<notin> set k \<and> CHR ''['' \<notin> set k)"

text \<open>The same assertion object in soft mode without a limit.\<close>

definition soft_twin :: "JsonAssertion \<Rightarrow> JsonAssertion" where
  "soft_twin this = this\<lparr>soft := True, maxErrors := None\<rparr>"

text \<open>What a call throws, if it throws.\<close>

definition thrown :: "'a outcome \<Rightarrow> js_error option" where
  "thrown r = (case fst r of Inl e \<Rightarrow> Some e | Inr v \<Rightarrow> None)"

text \<open>
  Deep equality as the specification words it, to compare with what \<open>toMatchValue\<close>
  computes: two arrays are equal when they have the same length and equal elements at
  each position; two objects are equal when they have the same keys and equal values
  under each key, in whatever order the keys were inserted; any other two values are
  equal when they are the same value.
\<close>

fun spec_deep_equal :: "jsvalue \<Rightarrow> jsvalue \<Rightarrow> bool"
  and spec_elements_equal :: "jsvalue list \<Rightarrow> jsvalue list \<Rightarrow> bool"
  and spec_entries_within :: "(string \<times> jsvalue) list \<Rightarrow> (string \<times> jsvalue) list \<Rightarrow> bool" where
  "spec_deep_equal (JArr xs) b = (case b of JArr ys \<Rightarrow> spec_elements_equal xs ys | _ \<Rightarrow> False)"
| "spec_deep_equal (JObj kvs) b =
     (case b of
        JObj kws \<Rightarrow> set (map fst kvs) = set (map fst kws) \<and> spec_entries_within kvs kws
      | _ \<Rightarrow> False)"
| "spec_deep_equal a b = (a = b)"
| "spec_elements_equal [] ys = (ys = [])"
| "spec_elements_equal (x # xs) ys =
     (case ys of [] \<Rightarrow> False | y # ys' \<Rightarrow> spec_deep_equal x y \<and> spec_elements_equal xs ys')"
| "spec_entries_within [] kws = True"
| "spec_entries_within (kv # kvs) kws =
     ((case map_of kws (fst kv) of None \<Rightarrow> False | Some w \<Rightarrow> spec_deep_equal (snd kv) w)
      \<and> spec_entries_within kvs kws)"

section \<open>Sessions from the repository's tests\<close>

text \<open>\<^verbatim>\<open>assertJson({ foo: 1 })\<close>\<close>

definition strict_session :: "JsonAssertion \<times> heap" where
  "strict_session = assertJson (JObj [(''foo'', JNum 1)]) None empty_heap"

text \<open>\<^verbatim>\<open>assertJson({ foo: 1 }, { soft: true })\<close>, then \<^verbatim>\<open>.not\<close>, then \<^verbatim>\<open>.not.not\<close>\<close>

definition soft_session :: "JsonAssertion \<times> heap" where
  "soft_session =
     assertJson (JObj [(''foo'', JNum 1)]) (Some \<lparr>soft_opt = Some True, maxErrors_opt = None\<rparr>) empty_heap"

definition soft_session_not :: "JsonAssertion \<times> heap" where
  "soft_session_not = not (fst soft_session) (snd soft_session)"

definition soft_session_not_not :: "JsonAssertion \<times> heap" where
  "soft_session_not_not = not (fst soft_session_not) (snd soft_session_not)"

text \<open>
  The README's example of \<^verbatim>\<open>maxErrors\<close>: a soft session with the limit 2, after its two
  failing checks.
\<close>

definition limit_session :: "JsonAssertion \<times> heap" where
  "limit_session =
     (case assertJson
             (JObj [(''user'', JObj [(''name'', JNum 123), (''active'', JStr ''not a boolean''),
                                     (''role'', JNull)])])
             (Some \<lparr>soft_opt = Some True, maxErrors_opt = Some 2\<rparr>) empty_heap of
        (a, h) \<Rightarrow>
          (a, snd (chain no_runtime
                     [Call (ToBeType ''user.name'' ''string''),
                      Call (ToBeType ''user.active'' ''boolean'')] a h)))"

text \<open>\<^verbatim>\<open>() => { throw new Error("predicate error"); }\<close>\<close>

definition throwing_predicate :: "jsvalue \<Rightarrow> js_error + bool" where
  "throwing_predicate v = Inl (Error ''predicate error'')"

section \<open>Path resolution\<close>

subsection \<open>Bracketed indices\<close>

lemma replace_index_digits:
  "\<forall>c\<in>set ds. is_digit c \<Longrightarrow> replace_index (ds @ s) = ds @ replace_index s"
  by (induction ds) (auto simp: is_digit_def)

text \<open>A match of the pattern never reaches over a character that is neither a digit nor
  a closing bracket, so the text before such a character is rewritten on its own.\<close>

lemma replace_index_append:
  "\<not> is_digit c \<Longrightarrow> c \<noteq> CHR '']'' \<Longrightarrow>
   replace_index (a @ c # s) = replace_index a @ replace_index (c # s)"
proof (induction a rule: replace_index.induct)
  case 1
  then show ?case by simp
next
  case (2 x xs)
  show ?case
  proof (cases "\<forall>d\<in>set xs. is_digit d")
    case True
    then have tw: "takeWhile is_digit (xs @ c # s) = xs"
      and dw: "dropWhile is_digit (xs @ c # s) = c # s"
      and dw0: "dropWhile is_digit xs = []"
      using 2(3) by (simp_all add: takeWhile_append2 dropWhile_append2)
    have "replace_index ((x # xs) @ c # s) = x # replace_index (xs @ c # s)"
      by (simp add: tw dw 2(4))
    also have "\<dots> = x # replace_index xs @ replace_index (c # s)"
      using 2(2)[OF _ 2(3) 2(4)] by (simp add: dw0)
    also have "\<dots> = replace_index (x # xs) @ replace_index (c # s)"
      by (simp add: dw0)
    finally show ?thesis .
  next
    case False
    then obtain d where d: "d \<in> set xs" "\<not> is_digit d" by blast
    then have tw: "takeWhile is_digit (xs @ c # s) = takeWhile is_digit xs"
      and dw: "dropWhile is_digit (xs @ c # s) = dropWhile is_digit xs @ c # s"
      by (simp_all add: takeWhile_append1 dropWhile_append1)
    have "dropWhile is_digit xs \<noteq> []"
      using d by (simp add: dropWhile_eq_Nil_conv) blast
    then obtain y ys where dx: "dropWhile is_digit xs = y # ys"
      by (cases "dropWhile is_digit xs") auto
    show ?thesis
    proof (cases "x = CHR ''['' \<and> takeWhile is_digit xs \<noteq> [] \<and> y = CHR '']''")
      case True
      then show ?thesis
        using 2(1)[OF _ 2(3) 2(4)] by (simp add: tw dw dx)
    next
      case False
      then show ?thesis
        using 2(2)[OF _ 2(3) 2(4)] by (auto simp add: tw dw dx)
    qed
  qed
qed

lemma not_digit_special [simp]:
  "\<not> is_digit CHR ''[''" "\<not> is_digit CHR '']''" "\<not> is_digit CHR ''.''"
  by (simp_all add: is_digit_def)

lemma replace_index_bracket:
  assumes "ds \<noteq> []" "\<forall>c\<in>set ds. is_digit c"
  shows "replace_index (CHR ''['' # ds @ CHR '']'' # b) = CHR ''.'' # ds @ replace_index b"
proof -
  have "takeWhile is_digit (ds @ CHR '']'' # b) = ds"
    and "dropWhile is_digit (ds @ CHR '']'' # b) = CHR '']'' # b"
    using assms(2) by (simp_all add: takeWhile_append2 dropWhile_append2)
  then show ?thesis using assms(1) by simp
qed

lemma replace_index_dot_digits:
  assumes "\<forall>c\<in>set ds. is_digit c"
  shows "replace_index (CHR ''.'' # ds @ b) = CHR ''.'' # ds @ replace_index b"
  using replace_index_digits[OF assms] by simp

lemma replace_index_plain:
  "CHR ''['' \<notin> set k \<Longrightarrow> replace_index (k @ s) = k @ replace_index s"
  by (induction k) auto

lemma split_dot_key:
  "CHR ''.'' \<notin> set k \<Longrightarrow> split_dot (k @ CHR ''.'' # s) = k # split_dot s"
  by (induction k) auto

lemma split_dot_last:
  "CHR ''.'' \<notin> set k \<Longrightarrow> split_dot k = [k]"
  by (induction k) auto

lemma digits_plain: "\<forall>c\<in>set ds. is_digit c \<Longrightarrow> plain_key ds"
  by (auto simp: plain_key_def)

text \<open>
  C8. A step written \<open>[N]\<close> (one or more digits between brackets) resolves as the step
  \<open>.N\<close>: wherever it stands in a path, the path with \<open>[N]\<close> and the path with \<open>.N\<close>
  resolve to the same value in every document. For keys without dots and brackets,
  \<open>k1[N].k2\<close> and \<open>k1.N.k2\<close> are both the three steps \<open>k1\<close>, \<open>N\<close>, \<open>k2\<close> taken from the
  document.
\<close>

theorem bracket_index_is_key_step:
  assumes "ds \<noteq> []" and "\<forall>c\<in>set ds. is_digit c"
  shows "getValueAtPath rt doc (a @ ''['' @ ds @ '']'' @ b) = getValueAtPath rt doc (a @ ''.'' @ ds @ b)
    \<and> (plain_key k1 \<and> plain_key k2 \<longrightarrow>
         getValueAtPath_try rt doc (k1 @ ''['' @ ds @ ''].'' @ k2) = reduce_path rt [k1, ds, k2] doc
       \<and> getValueAtPath_try rt doc (k1 @ ''.'' @ ds @ ''.'' @ k2) = reduce_path rt [k1, ds, k2] doc)"
proof -
  have l: "replace_index (a @ ''['' @ ds @ '']'' @ b) = replace_index a @ CHR ''.'' # ds @ replace_index b"
    using replace_index_append[of "CHR ''[''" a "ds @ CHR '']'' # b"] replace_index_bracket[OF assms, of b]
    by simp
  have r: "replace_index (a @ ''.'' @ ds @ b) = replace_index a @ CHR ''.'' # ds @ replace_index b"
    using replace_index_append[of "CHR ''.''" a "ds @ b"] replace_index_dot_digits[OF assms(2), of b]
    by simp
  have first: "getValueAtPath rt doc (a @ ''['' @ ds @ '']'' @ b) = getValueAtPath rt doc (a @ ''.'' @ ds @ b)"
    by (simp only: getValueAtPath_def getValueAtPath_try_def l r)
  have second: "getValueAtPath_try rt doc (k1 @ ''['' @ ds @ ''].'' @ k2) = reduce_path rt [k1, ds, k2] doc"
    and third: "getValueAtPath_try rt doc (k1 @ ''.'' @ ds @ ''.'' @ k2) = reduce_path rt [k1, ds, k2] doc"
    if k: "plain_key k1" "plain_key k2"
  proof -
    have pd: "CHR ''.'' \<notin> set ds" "CHR ''['' \<notin> set ds"
      using digits_plain[OF assms(2)] by (simp_all add: plain_key_def)
    have k2': "replace_index k2 = k2"
      using replace_index_plain[of k2 "[]"] k(2) by (simp add: plain_key_def)
    have "replace_index (k1 @ ''['' @ ds @ ''].'' @ k2) = k1 @ CHR ''.'' # ds @ CHR ''.'' # k2"
      using replace_index_plain[of k1 "CHR ''['' # ds @ CHR '']'' # CHR ''.'' # k2"] k(1)
        replace_index_bracket[OF assms, of "CHR ''.'' # k2"] k2'
      by (simp add: plain_key_def)
    moreover have "replace_index (k1 @ ''.'' @ ds @ ''.'' @ k2) = k1 @ CHR ''.'' # ds @ CHR ''.'' # k2"
      using replace_index_plain[of k1 "CHR ''.'' # ds @ CHR ''.'' # k2"] k(1)
        replace_index_dot_digits[OF assms(2), of "CHR ''.'' # k2"] k2'
      by (simp add: plain_key_def)
    moreover have "split_dot (k1 @ CHR ''.'' # ds @ CHR ''.'' # k2) = [k1, ds, k2]"
      using k pd by (simp add: split_dot_key split_dot_last plain_key_def)
    ultimately show "getValueAtPath_try rt doc (k1 @ ''['' @ ds @ ''].'' @ k2) = reduce_path rt [k1, ds, k2] doc"
      and "getValueAtPath_try rt doc (k1 @ ''.'' @ ds @ ''.'' @ k2) = reduce_path rt [k1, ds, k2] doc"
      by (simp_all add: getValueAtPath_try_def)
  qed
  from first second third show ?thesis by blast
qed

theorem bracket_index_is_key_step_witness:
  "getValueAtPath no_runtime (JObj [(''arr'', JArr [JObj [(''id'', JNum 1)], JObj [(''id'', JNum 2)]])]) ''arr[1].id''
     = getValueAtPath no_runtime (JObj [(''arr'', JArr [JObj [(''id'', JNum 1)], JObj [(''id'', JNum 2)]])]) ''arr.1.id''
   \<and> getValueAtPath_try no_runtime (JObj [(''arr'', JArr [JObj [(''id'', JNum 1)], JObj [(''id'', JNum 2)]])]) ''arr[1].id''
     = reduce_path no_runtime [''arr'', ''1'', ''id''] (JObj [(''arr'', JArr [JObj [(''id'', JNum 1)], JObj [(''id'', JNum 2)]])])
   \<and> reduce_path no_runtime [''arr'', ''1'', ''id''] (JObj [(''arr'', JArr [JObj [(''id'', JNum 1)], JObj [(''id'', JNum 2)]])])
     = Inr (JNum 2)"
proof -
  have d: "''1'' \<noteq> []" "\<forall>c\<in>set ''1''. is_digit c"
    by (simp_all add: is_digit_def)
  have k: "plain_key ''arr''" "plain_key ''id''"
    by (simp_all add: plain_key_def)
  have v: "reduce_path no_runtime [''arr'', ''1'', ''id''] (JObj [(''arr'', JArr [JObj [(''id'', JNum 1)], JObj [(''id'', JNum 2)]])])
     = Inr (JNum 2)"
    by code_simp
  show ?thesis
    using bracket_index_is_key_step[OF d, of no_runtime
        "JObj [(''arr'', JArr [JObj [(''id'', JNum 1)], JObj [(''id'', JNum 2)]])]" "''arr''" "''.id''" "''arr''" "''id''"]
      k v
    by simp
qed

subsection \<open>Resolution returns\<close>

lemma stored_values_self: "v \<in> set (stored_values v)"
  by (cases v) simp_all

lemma stored_in_elements_iff:
  "w \<in> set (stored_in_elements xs) \<longleftrightarrow> (\<exists>x\<in>set xs. w \<in> set (stored_values x))"
  by (induction xs) auto

lemma stored_in_entries_iff:
  "w \<in> set (stored_in_entries kvs) \<longleftrightarrow> (\<exists>kv\<in>set kvs. w \<in> set (stored_values (snd kv)))"
  by (induction kvs) auto

lemma stored_member_child:
  assumes "stored_member acc key = Some v"
  shows "set (stored_values v) \<subseteq> set (stored_values acc)"
proof (cases acc)
  case (JArr xs)
  with assms have "v \<in> set xs"
    by (auto dest!: map_of_SomeD set_zip_rightD)
  then show ?thesis using JArr by (auto simp: stored_in_elements_iff)
next
  case (JObj kvs)
  with assms have "(key, v) \<in> set kvs"
    by (auto dest: map_of_SomeD)
  then show ?thesis using JObj by (force simp: stored_in_entries_iff)
qed (use assms in simp_all)

lemma reduce_path_nullish: "nullish acc \<Longrightarrow> reduce_path rt keys acc = Inr (if keys = [] then acc else JUndefined)"
proof (induction keys arbitrary: acc)
  case Nil
  show ?case by simp
next
  case (Cons key keys)
  have "nullish JUndefined" by (simp add: nullish_def)
  from Cons.IH[OF this] Cons.prems show ?case
    by (simp add: opt_member_def)
qed

text \<open>
  Where the result comes from: with \<open>acc\<close> stored in the value the steps so far started
  from (the document, or what the last runtime read gave), the value the keys lead to
  is \<open>undefined\<close> or stored in the value they start from in the end.
\<close>

lemma reduce_path_source:
  assumes "reduce_path rt keys acc = Inr v"
    and "set (stored_values acc) \<subseteq> set (stored_values (case seen of None \<Rightarrow> doc | Some w \<Rightarrow> w))"
  shows "v = JUndefined
     \<or> v \<in> set (stored_values (case runtime_value rt seen keys acc of None \<Rightarrow> doc | Some w \<Rightarrow> w))"
  using assms
proof (induction keys arbitrary: acc seen)
  case Nil
  then show ?case using stored_values_self[of acc] by auto
next
  case (Cons key keys)
  show ?case
  proof (cases "nullish acc")
    case True
    with Cons.prems(1) reduce_path_nullish[OF True, of rt "key # keys"] show ?thesis by simp
  next
    case False
    show ?thesis
    proof (cases "stored_member acc key")
      case (Some u)
      with False Cons.prems(1) have r: "reduce_path rt keys u = Inr v"
        by (simp add: opt_member_def member_def)
      have "set (stored_values u) \<subseteq> set (stored_values (case seen of None \<Rightarrow> doc | Some w \<Rightarrow> w))"
        using stored_member_child[OF Some] Cons.prems(2) by blast
      from Cons.IH[OF r this] Some False show ?thesis by simp
    next
      case None
      show ?thesis
      proof (cases "runtime_member rt acc key")
        case (Inl e)
        with None False Cons.prems(1) show ?thesis
          by (simp add: opt_member_def member_def)
      next
        case (Inr w)
        with None False Cons.prems(1) have r: "reduce_path rt keys w = Inr v"
          by (simp add: opt_member_def member_def)
        from Cons.IH[where seen = "Some w", OF r] None False Inr show ?thesis by simp
      qed
    qed
  qed
qed

text \<open>
  C4, as the claim states it, fails: the path \<open>name.length\<close> into \<open>{name: "Alice"}\<close>
  resolves to 5, which is neither \<open>undefined\<close> nor a value the document stores.
\<close>

theorem resolution_returns_counterexample:
  "getValueAtPath no_runtime (JObj [(''name'', JStr ''Alice'')]) ''name.length'' = JNum 5
   \<and> JNum 5 \<noteq> JUndefined
   \<and> JNum 5 \<notin> set (stored_values (JObj [(''name'', JStr ''Alice'')]))"
  by code_simp

text \<open>
  C4, amended. Resolution is total and no exception escapes: for every runtime table,
  document and path string, what a property read throws inside the \<open>try\<close> block is
  caught and the result is \<open>undefined\<close>; otherwise the result is the value the steps lead
  to. When no step reads a property that is not stored, the result is \<open>undefined\<close> or a
  value the document stores. When a step reads such a property (the length of an array,
  a character or the length of a string, an inherited member), the result is
  \<open>undefined\<close>, or the value the last such read gave, or a value stored in it.
\<close>

theorem resolution_returns:
  "(case getValueAtPath_try rt doc path of
      Inl e \<Rightarrow> getValueAtPath rt doc path = JUndefined
    | Inr v \<Rightarrow> getValueAtPath rt doc path = v)
   \<and> (case runtime_value rt None (split_dot (replace_index path)) doc of
        None \<Rightarrow>
          getValueAtPath rt doc path = JUndefined
          \<or> getValueAtPath rt doc path \<in> set (stored_values doc)
      | Some w \<Rightarrow>
          getValueAtPath rt doc path = JUndefined
          \<or> getValueAtPath rt doc path \<in> set (stored_values w))"
proof (cases "getValueAtPath_try rt doc path")
  case (Inl e)
  then have "getValueAtPath rt doc path = JUndefined"
    by (simp add: getValueAtPath_def)
  with Inl show ?thesis by (simp split: option.splits)
next
  case (Inr v)
  then have g: "getValueAtPath rt doc path = v"
    by (simp add: getValueAtPath_def)
  from Inr have "reduce_path rt (split_dot (replace_index path)) doc = Inr v"
    by (simp add: getValueAtPath_try_def)
  from reduce_path_source[where seen = None and doc = doc, OF this]
  have "v = JUndefined
     \<or> v \<in> set (stored_values
          (case runtime_value rt None (split_dot (replace_index path)) doc of None \<Rightarrow> doc | Some w \<Rightarrow> w))"
    by simp
  with Inr g show ?thesis by (simp split: option.splits)
qed

theorem resolution_returns_witness:
  "getValueAtPath no_runtime (JObj [(''a'', JNull)]) ''a.b[0]..c]'' = JUndefined
   \<and> getValueAtPath no_runtime (JObj [(''a'', JObj [(''b'', JNum 7)])]) ''a.b''
       \<in> set (stored_values (JObj [(''a'', JObj [(''b'', JNum 7)])]))
   \<and> getValueAtPath no_runtime (JObj [(''name'', JStr ''Alice'')]) ''name.length''
       \<in> set (stored_values (JNum 5))
   \<and> getValueAtPath_try getter_runtime (JObj [(''a'', JObj [])]) ''a.boom.c'' = Inl (Error ''getter failed'')
   \<and> getValueAtPath getter_runtime (JObj [(''a'', JObj [])]) ''a.boom.c'' = JUndefined"
proof -
  have t1: "getValueAtPath_try no_runtime (JObj [(''a'', JNull)]) ''a.b[0]..c]'' = Inr JUndefined"
    by code_simp
  have c1: "getValueAtPath no_runtime (JObj [(''a'', JNull)]) ''a.b[0]..c]'' = JUndefined"
    using resolution_returns[of no_runtime "JObj [(''a'', JNull)]" "''a.b[0]..c]''"] t1 by simp
  have r2: "runtime_value no_runtime None (split_dot (replace_index ''a.b''))
              (JObj [(''a'', JObj [(''b'', JNum 7)])]) = None"
    and n2: "getValueAtPath no_runtime (JObj [(''a'', JObj [(''b'', JNum 7)])]) ''a.b'' \<noteq> JUndefined"
    by code_simp+
  have c2: "getValueAtPath no_runtime (JObj [(''a'', JObj [(''b'', JNum 7)])]) ''a.b''
       \<in> set (stored_values (JObj [(''a'', JObj [(''b'', JNum 7)])]))"
    using resolution_returns[of no_runtime "JObj [(''a'', JObj [(''b'', JNum 7)])]" "''a.b''"] n2
    by (simp only: r2 option.case) blast
  have r3: "runtime_value no_runtime None (split_dot (replace_index ''name.length''))
              (JObj [(''name'', JStr ''Alice'')]) = Some (JNum 5)"
    and n3: "getValueAtPath no_runtime (JObj [(''name'', JStr ''Alice'')]) ''name.length'' \<noteq> JUndefined"
    by code_simp+
  have c3: "getValueAtPath no_runtime (JObj [(''name'', JStr ''Alice'')]) ''name.length''
       \<in> set (stored_values (JNum 5))"
    using resolution_returns[of no_runtime "JObj [(''name'', JStr ''Alice'')]" "''name.length''"] n3
    by (simp only: r3 option.case) blast
  have t4: "getValueAtPath_try getter_runtime (JObj [(''a'', JObj [])]) ''a.boom.c'' = Inl (Error ''getter failed'')"
    by code_simp
  have c4: "getValueAtPath getter_runtime (JObj [(''a'', JObj [])]) ''a.boom.c'' = JUndefined"
    using resolution_returns[of getter_runtime "JObj [(''a'', JObj [])]" "''a.boom.c''"] t4 by simp
  show ?thesis
    by (rule conjI c1 c2 c3 t4 c4)+
qed

section \<open>The assertion object\<close>

subsection \<open>Construction, negation and the three ways a check can end\<close>

lemma not_soft:
  "soft this \<Longrightarrow>
   not this h = (this\<lparr>negated := \<not> negated this\<rparr>,
                 h\<lparr>cells := (cells h)(fresh h := []), fresh := Suc (fresh h)\<rparr>)"
  by (cases "maxErrors this") (simp_all add: not_def new_JsonAssertion_def new_array_def)

lemma not_strict:
  "\<not> soft this \<Longrightarrow>
   not this h = (\<lparr>target = target this, negated = \<not> negated this, soft = False,
                  errors = fresh h, maxErrors = None\<rparr>,
                 h\<lparr>cells := (cells h)(fresh h := []), fresh := Suc (fresh h)\<rparr>)"
  by (simp add: not_def new_JsonAssertion_def new_array_def)

text \<open>
  What a check does depends on the runtime, the check, the document and the negation
  flag only: it returns the object it was called on, or hands one error to
  \<open>handleError\<close>, or (for \<open>toSatisfy\<close>) throws what the predicate threw.
\<close>

lemma call_verdict_disj:
  "(\<forall>this h. target this = t \<and> negated this = n \<longrightarrow> call rt c this h = (Inr this, h))
   \<or> (\<exists>err. \<forall>this h. target this = t \<and> negated this = n \<longrightarrow> call rt c this h = handleError this err h)
   \<or> (\<exists>e path predicate. c = ToSatisfy path predicate \<and> predicate (getValueAtPath rt t path) = Inl e
         \<and> (\<forall>this h. target this = t \<and> negated this = n \<longrightarrow> call rt c this h = (Inl e, h)))"
proof (cases c)
  case (ToHaveKey path)
  then show ?thesis by (auto simp: toHaveKey_def not_word_def Let_def)
next
  case (ToBeType path type)
  then show ?thesis by (auto simp: toBeType_def not_word_def Let_def)
next
  case (ToBeDefined path)
  then show ?thesis by (auto simp: toBeDefined_def not_word_def Let_def)
next
  case (ToBeNull path)
  then show ?thesis by (auto simp: toBeNull_def not_word_def Let_def)
next
  case (ToBeTruthy path)
  then show ?thesis by (auto simp: toBeTruthy_def not_word_def Let_def)
next
  case (ToBeFalsy path)
  then show ?thesis by (auto simp: toBeFalsy_def not_word_def Let_def)
next
  case (ToMatchValue path expected options)
  then show ?thesis by (auto simp: toMatchValue_def not_word_def Let_def)
next
  case (ToContainValue path expected)
  then show ?thesis by (auto simp: toContainValue_def not_word_def Let_def)
next
  case (ToBeGreaterThan path num)
  then show ?thesis by (auto simp: toBeGreaterThan_def not_word_def Let_def)
next
  case (ToBeLessThan path num)
  then show ?thesis by (auto simp: toBeLessThan_def not_word_def Let_def)
next
  case (ToBeOneOf path vals)
  then show ?thesis by (auto simp: toBeOneOf_def not_word_def Let_def)
next
  case (ToSatisfy path predicate)
  then show ?thesis
    by (cases "predicate (getValueAtPath rt t path)") (auto simp: toSatisfy_def not_word_def Let_def)
qed

lemma call_verdict [case_names pass fail fault]:
  obtains "\<And>this h. target this = t \<Longrightarrow> negated this = n \<Longrightarrow> call rt c this h = (Inr this, h)"
  | err where "\<And>this h. target this = t \<Longrightarrow> negated this = n \<Longrightarrow> call rt c this h = handleError this err h"
  | e path predicate where "c = ToSatisfy path predicate" "predicate (getValueAtPath rt t path) = Inl e"
      "\<And>this h. target this = t \<Longrightarrow> negated this = n \<Longrightarrow> call rt c this h = (Inl e, h)"
  using call_verdict_disj[of t n rt c] by blast

lemma handleError_strict: "\<not> soft this \<Longrightarrow> handleError this err h = (Inl err, h)"
  by (simp add: handleError_def)

lemma handleError_unlimited:
  "soft this \<Longrightarrow> maxErrors this = None \<Longrightarrow> handleError this err h = (Inr this, push (errors this) err h)"
  by (simp add: handleError_def)

lemma handleError_exhausted:
  "soft this \<Longrightarrow> maxErrors this = Some m \<Longrightarrow> m \<le> int (length (cells h (errors this))) \<Longrightarrow>
   handleError this err h = (Inl (Error (capacity_message m)), h)"
  by (simp add: handleError_def)

lemma call_strict:
  assumes "\<not> soft this"
  shows "call rt c this h = (Inr this, h)
     \<or> (\<exists>e. call rt c this h = (Inl e, h)
           \<and> (call rt c (soft_twin this) h = (Inr (soft_twin this), push (errors this) e h)
               \<or> (\<exists>path predicate. c = ToSatisfy path predicate
                     \<and> predicate (getValueAtPath rt (target this) path) = Inl e)))"
proof -
  have tw: "target (soft_twin this) = target this" "negated (soft_twin this) = negated this"
    "soft (soft_twin this)" "maxErrors (soft_twin this) = None" "errors (soft_twin this) = errors this"
    by (simp_all add: soft_twin_def)
  show ?thesis
  proof (cases rule: call_verdict[of "target this" "negated this" rt c])
    case pass
    then show ?thesis by simp
  next
    case (fail err)
    then have "call rt c this h = (Inl err, h)"
      using assms by (simp add: handleError_strict)
    moreover have "call rt c (soft_twin this) h = (Inr (soft_twin this), push (errors this) err h)"
      using fail tw by (simp add: handleError_unlimited)
    ultimately show ?thesis by blast
  next
    case (fault e path predicate)
    then show ?thesis by blast
  qed
qed

lemma not_keeps_strict:
  "\<not> soft this \<Longrightarrow> not this h = (clone, h') \<Longrightarrow>
   \<not> soft clone \<and> cells h' (errors clone) = [] \<and> (cells h a = [] \<longrightarrow> cells h' a = [])"
  by (auto simp: not_strict)

lemma chain_strict_empty:
  "\<not> soft this \<Longrightarrow> cells h (errors this) = [] \<Longrightarrow> cells h a = [] \<Longrightarrow>
   chain rt links this h = (r, h') \<Longrightarrow>
   cells h' a = [] \<and> (\<forall>final. r = Inr final \<longrightarrow> \<not> soft final \<and> cells h' (errors final) = [])"
proof (induction links arbitrary: this h)
  case Nil
  then show ?case by auto
next
  case (Cons l links)
  show ?case
  proof (cases l)
    case GetNot
    obtain clone k where n: "not this h = (clone, k)" by (cases "not this h")
    from not_keeps_strict[OF Cons.prems(1) n, of a] Cons.prems
    have "\<not> soft clone" "cells k (errors clone) = []" "cells k a = []" by simp_all
    moreover have "chain rt links clone k = (r, h')"
      using Cons.prems(4) GetNot n by simp
    ultimately show ?thesis by (rule Cons.IH)
  next
    case (Call c)
    from call_strict[OF Cons.prems(1), of rt c h]
    show ?thesis
    proof
      assume "call rt c this h = (Inr this, h)"
      then have "chain rt links this h = (r, h')"
        using Cons.prems(4) Call by simp
      with Cons.prems(1-3) show ?thesis by (rule Cons.IH)
    next
      assume "\<exists>e. call rt c this h = (Inl e, h) \<and>
        (call rt c (soft_twin this) h = (Inr (soft_twin this), push (errors this) e h)
         \<or> (\<exists>path predicate. c = ToSatisfy path predicate
               \<and> predicate (getValueAtPath rt (target this) path) = Inl e))"
      then obtain e where "call rt c this h = (Inl e, h)" by blast
      then show ?thesis using Call Cons.prems by auto
    qed
  qed
qed

subsection \<open>Strict mode\<close>

text \<open>A new session has no errors, in either mode.\<close>

lemma assertJson_starts_empty:
  "getErrors (fst (assertJson data opts h)) (snd (assertJson data opts h)) = []"
  by (simp add: assertJson_def new_JsonAssertion_def new_array_def getErrors_def Let_def)

text \<open>
  A check that fails throws: when the same object in soft mode without a limit records
  a failure, the call in strict mode throws that failure.
\<close>

lemma call_strict_fails:
  assumes "\<not> soft this"
    and "getErrors this (snd (call rt c (soft_twin this) h)) = getErrors this h @ [failure]"
  shows "call rt c this h = (Inl failure, h)"
proof -
  have tw: "target (soft_twin this) = target this" "negated (soft_twin this) = negated this"
    "soft (soft_twin this)" "maxErrors (soft_twin this) = None" "errors (soft_twin this) = errors this"
    by (simp_all add: soft_twin_def)
  show ?thesis
  proof (cases rule: call_verdict[of "target this" "negated this" rt c])
    case pass
    from pass[OF tw(1,2), of h] assms(2) show ?thesis
      by (simp add: getErrors_def)
  next
    case (fail err)
    have "call rt c (soft_twin this) h = (Inr (soft_twin this), push (errors this) err h)"
      using fail[OF tw(1,2), of h] tw by (simp add: handleError_unlimited)
    with assms(2) have "err = failure"
      by (simp add: getErrors_def push_def)
    with fail[of this h] assms(1) show ?thesis
      by (simp add: handleError_strict)
  next
    case (fault e path predicate)
    from fault(3)[OF tw(1,2), of h] assms(2) show ?thesis
      by (simp add: getErrors_def)
  qed
qed

text \<open>
  C5. In strict mode \<open>handleError\<close> throws the error it is given and leaves the heap as
  it is. Every failing check throws at once: when the same object in soft mode without
  a limit would record a failure, the call throws that very failure, the heap is
  unchanged, and the chain the call stands in ends with that throw whatever follows.
  Conversely a check either returns the object it was called on or throws, with the heap
  unchanged, and what it throws is the failure the soft object would have recorded (or
  what the predicate of \<open>toSatisfy\<close> threw). No error is ever stored: if \<open>getErrors\<close> is
  empty before a chain of calls and negations, it is empty after it, for the object the
  chain started from and for the one it ends with.
\<close>

theorem strict_mode_raises_at_once:
  assumes "\<not> soft this"
  shows "handleError this err h = (Inl err, h)
    \<and> (getErrors this (snd (call rt c (soft_twin this) h)) = getErrors this h @ [failure] \<longrightarrow>
         call rt c this h = (Inl failure, h)
         \<and> chain rt (Call c # rest) this h = (Inl failure, h))
    \<and> (call rt c this h = (Inr this, h)
       \<or> (\<exists>e. call rt c this h = (Inl e, h)
             \<and> chain rt (Call c # rest) this h = (Inl e, h)
             \<and> (call rt c (soft_twin this) h = (Inr (soft_twin this), push (errors this) e h)
                 \<or> (\<exists>path predicate. c = ToSatisfy path predicate
                       \<and> predicate (getValueAtPath rt (target this) path) = Inl e))))
    \<and> (getErrors this h = [] \<and> chain rt links this h = (r, h') \<longrightarrow>
         getErrors this h' = []
         \<and> (\<forall>final. r = Inr final \<longrightarrow> \<not> soft final \<and> getErrors final h' = []))"
proof -
  have one: "handleError this err h = (Inl err, h)"
    using assms by (rule handleError_strict)
  have fails: "call rt c this h = (Inl failure, h)
         \<and> chain rt (Call c # rest) this h = (Inl failure, h)"
    if "getErrors this (snd (call rt c (soft_twin this) h)) = getErrors this h @ [failure]"
    using call_strict_fails[OF assms that] by simp
  have two: "call rt c this h = (Inr this, h)
       \<or> (\<exists>e. call rt c this h = (Inl e, h)
             \<and> chain rt (Call c # rest) this h = (Inl e, h)
             \<and> (call rt c (soft_twin this) h = (Inr (soft_twin this), push (errors this) e h)
                 \<or> (\<exists>path predicate. c = ToSatisfy path predicate
                       \<and> predicate (getValueAtPath rt (target this) path) = Inl e)))"
    using call_strict[OF assms, of rt c h] by auto
  have three: "getErrors this h' = []
         \<and> (\<forall>final. r = Inr final \<longrightarrow> \<not> soft final \<and> getErrors final h' = [])"
    if "getErrors this h = []" "chain rt links this h = (r, h')"
    using chain_strict_empty[OF assms, of h "errors this" rt links r h'] that
    by (simp add: getErrors_def)
  from one fails two three show ?thesis by blast
qed

theorem strict_mode_raises_at_once_witness:
  "handleError (fst strict_session) (Error ''failure'') (snd strict_session)
     = (Inl (Error ''failure''), snd strict_session)
   \<and> call no_runtime (ToHaveKey ''bar'') (fst strict_session) (snd strict_session)
     = (Inl (Error ''Expected key 'bar' to exist''), snd strict_session)
   \<and> chain no_runtime [Call (ToHaveKey ''bar''), Call (ToHaveKey ''foo'')]
        (fst strict_session) (snd strict_session)
     = (Inl (Error ''Expected key 'bar' to exist''), snd strict_session)
   \<and> getErrors (fst strict_session)
        (snd (chain no_runtime [Call (ToHaveKey ''bar''), Call (ToHaveKey ''foo'')]
                (fst strict_session) (snd strict_session))) = []"
proof -
  have s: "\<not> soft (fst strict_session)"
    by code_simp
  have e: "getErrors (fst strict_session) (snd strict_session) = []"
    by code_simp
  have w: "getErrors (fst strict_session)
             (snd (call no_runtime (ToHaveKey ''bar'') (soft_twin (fst strict_session)) (snd strict_session)))
           = getErrors (fst strict_session) (snd strict_session) @ [Error ''Expected key 'bar' to exist'']"
    by code_simp
  note t = strict_mode_raises_at_once[OF s, where err = "Error ''failure''" and h = "snd strict_session"
      and rt = no_runtime and c = "ToHaveKey ''bar''" and rest = "[Call (ToHaveKey ''foo'')]"
      and failure = "Error ''Expected key 'bar' to exist''"
      and links = "[Call (ToHaveKey ''bar''), Call (ToHaveKey ''foo'')]"
      and r = "fst (chain no_runtime [Call (ToHaveKey ''bar''), Call (ToHaveKey ''foo'')]
            (fst strict_session) (snd strict_session))"
      and h' = "snd (chain no_runtime [Call (ToHaveKey ''bar''), Call (ToHaveKey ''foo'')]
            (fst strict_session) (snd strict_session))"]
  from t have c1: "handleError (fst strict_session) (Error ''failure'') (snd strict_session)
     = (Inl (Error ''failure''), snd strict_session)"
    by blast
  from t w have c2: "call no_runtime (ToHaveKey ''bar'') (fst strict_session) (snd strict_session)
     = (Inl (Error ''Expected key 'bar' to exist''), snd strict_session)"
    and c3: "chain no_runtime [Call (ToHaveKey ''bar''), Call (ToHaveKey ''foo'')]
        (fst strict_session) (snd strict_session)
     = (Inl (Error ''Expected key 'bar' to exist''), snd strict_session)"
    by blast+
  have "chain no_runtime [Call (ToHaveKey ''bar''), Call (ToHaveKey ''foo'')]
          (fst strict_session) (snd strict_session)
        = (fst (chain no_runtime [Call (ToHaveKey ''bar''), Call (ToHaveKey ''foo'')]
            (fst strict_session) (snd strict_session)),
           snd (chain no_runtime [Call (ToHaveKey ''bar''), Call (ToHaveKey ''foo'')]
            (fst strict_session) (snd strict_session)))"
    by simp
  with t e have c4: "getErrors (fst strict_session)
        (snd (chain no_runtime [Call (ToHaveKey ''bar''), Call (ToHaveKey ''foo'')]
                (fst strict_session) (snd strict_session))) = []"
    by blast
  show ?thesis
    by (rule conjI c1 c2 c3 c4)+
qed

subsection \<open>Soft mode with a limit\<close>

text \<open>
  C3. In soft mode with \<open>maxErrors = N\<close>, once \<open>N\<close> (or more) failures are recorded,
  \<open>handleError\<close> throws the capacity error, whose message names \<open>N\<close>, and stores nothing.
  So every check that would record a failure if there were no limit throws that error
  instead; every check either returns or throws, with the heap unchanged; and
  \<open>getErrors\<close> is after the call what it was before.
\<close>

theorem capacity_exceeded:
  assumes "soft this" and "maxErrors this = Some N" and "N \<le> int (length (getErrors this h))"
  shows "handleError this err h = (Inl (Error (capacity_message N)), h)
    \<and> capacity_message N
        = ''Maximum number of errors ('' @ show_int N
            @ '') reached in soft mode. Further assertions throw immediately.''
    \<and> (getErrors this (snd (call rt c (this\<lparr>maxErrors := None\<rparr>) h)) = getErrors this h @ [err]
        \<longrightarrow> call rt c this h = (Inl (Error (capacity_message N)), h))
    \<and> (call rt c this h = (Inr this, h) \<or> (\<exists>e. call rt c this h = (Inl e, h)))
    \<and> getErrors this (snd (call rt c this h)) = getErrors this h"
proof -
  have ex: "handleError this x h = (Inl (Error (capacity_message N)), h)" for x
    using assms by (simp add: handleError_exhausted getErrors_def)
  have un: "handleError (this\<lparr>maxErrors := None\<rparr>) x h = (Inr (this\<lparr>maxErrors := None\<rparr>), push (errors this) x h)" for x
    using assms(1) by (simp add: handleError_unlimited)
  have untarget: "target (this\<lparr>maxErrors := None\<rparr>) = target this"
    "negated (this\<lparr>maxErrors := None\<rparr>) = negated this" "errors (this\<lparr>maxErrors := None\<rparr>) = errors this"
    by simp_all
  have rest: "(getErrors this (snd (call rt c (this\<lparr>maxErrors := None\<rparr>) h)) = getErrors this h @ [err]
        \<longrightarrow> call rt c this h = (Inl (Error (capacity_message N)), h))
    \<and> (call rt c this h = (Inr this, h) \<or> (\<exists>e. call rt c this h = (Inl e, h)))
    \<and> getErrors this (snd (call rt c this h)) = getErrors this h"
  proof (cases rule: call_verdict[of "target this" "negated this" rt c])
    case pass
    from pass[of this h] pass[OF untarget(1,2), of h]
    show ?thesis by (simp add: getErrors_def)
  next
    case (fail x)
    from fail[of this h] show ?thesis by (simp add: ex)
  next
    case (fault e path predicate)
    from fault(3)[of this h] fault(3)[OF untarget(1,2), of h]
    show ?thesis by (simp add: getErrors_def)
  qed
  show ?thesis using ex[of err] rest by (simp add: capacity_message_def)
qed

theorem capacity_exceeded_witness:
  "fst (call no_runtime (ToBeTruthy ''user.role'') (fst limit_session) (snd limit_session))
     = Inl (Error ''Maximum number of errors (2) reached in soft mode. Further assertions throw immediately.'')
   \<and> length (getErrors (fst limit_session)
        (snd (call no_runtime (ToBeTruthy ''user.role'') (fst limit_session) (snd limit_session)))) = 2"
proof -
  have s: "soft (fst limit_session)" and m: "maxErrors (fst limit_session) = Some 2"
    and n: "2 \<le> int (length (getErrors (fst limit_session) (snd limit_session)))"
    by code_simp+
  have two: "length (getErrors (fst limit_session) (snd limit_session)) = 2"
    by code_simp
  have would: "getErrors (fst limit_session)
        (snd (call no_runtime (ToBeTruthy ''user.role'') ((fst limit_session)\<lparr>maxErrors := None\<rparr>) (snd limit_session)))
      = getErrors (fst limit_session) (snd limit_session) @ [Error ''Expected 'user.role' to be truthy'']"
    by code_simp
  have msg: "capacity_message 2 = ''Maximum number of errors (2) reached in soft mode. Further assertions throw immediately.''"
    by code_simp
  show ?thesis
    using capacity_exceeded[OF s m n, of "Error ''Expected 'user.role' to be truthy''" no_runtime
        "ToBeTruthy ''user.role''"] would two msg
    by simp
qed


subsection \<open>A predicate that throws\<close>

text \<open>
  C6. When the predicate throws on the resolved value, \<open>toSatisfy\<close> throws the same
  error, whatever the mode, the limit and the negation flag of the object, and the heap
  is unchanged: nothing is recorded.
\<close>

theorem predicate_fault_propagates:
  assumes "predicate (getValueAtPath rt (target this) path) = Inl e"
  shows "toSatisfy rt this path predicate h = (Inl e, h)
    \<and> call rt (ToSatisfy path predicate) this h = (Inl e, h)
    \<and> getErrors this (snd (toSatisfy rt this path predicate h)) = getErrors this h"
  using assms by (simp add: toSatisfy_def)

theorem predicate_fault_propagates_witness:
  "toSatisfy no_runtime (fst strict_session) ''foo'' throwing_predicate (snd strict_session)
     = (Inl (Error ''predicate error''), snd strict_session)
   \<and> toSatisfy no_runtime (fst soft_session) ''foo'' throwing_predicate (snd soft_session)
     = (Inl (Error ''predicate error''), snd soft_session)
   \<and> getErrors (fst soft_session)
        (snd (toSatisfy no_runtime (fst soft_session) ''foo'' throwing_predicate (snd soft_session))) = []"
proof -
  have p: "throwing_predicate (getValueAtPath no_runtime (target this) ''foo'') = Inl (Error ''predicate error'')"
    for this :: JsonAssertion
    by (simp add: throwing_predicate_def)
  have e: "getErrors (fst soft_session) (snd soft_session) = []"
    by code_simp
  show ?thesis
    using predicate_fault_propagates[where predicate = throwing_predicate and rt = no_runtime
        and this = "fst strict_session" and path = "''foo''" and h = "snd strict_session", OF p]
      predicate_fault_propagates[where predicate = throwing_predicate and rt = no_runtime
        and this = "fst soft_session" and path = "''foo''" and h = "snd soft_session", OF p] e
    by simp
qed

subsection \<open>Negation\<close>

text \<open>
  C7. For an object on the heap, \<open>.not.not\<close> gives an object with the same document, mode
  and negation flag, and every check throws on it exactly what it throws on the object
  itself (or returns on both). In soft mode it is the same object, and the recorded
  errors after the check are the same.
\<close>

theorem double_negation:
  assumes "errors this < fresh h" and "not this h = (n1, h1)" and "not n1 h1 = (n2, h2)"
  shows "negated n2 = negated this \<and> target n2 = target this \<and> soft n2 = soft this
    \<and> thrown (call rt c n2 h2) = thrown (call rt c this h)
    \<and> (soft this \<longrightarrow> n2 = this
          \<and> getErrors n2 (snd (call rt c n2 h2)) = getErrors this (snd (call rt c this h)))"
proof -
  have fields: "negated n2 = negated this" "target n2 = target this" "soft n2 = soft this"
    "soft this \<longrightarrow> n2 = this" "soft this \<longrightarrow> cells h2 (errors this) = cells h (errors this)"
    using assms by (cases "soft this"; auto simp: not_soft not_strict)+
  have same: "soft n2 = soft this" "soft n2 \<longrightarrow> errors n2 = errors this"  "soft n2 \<longrightarrow> maxErrors n2 = maxErrors this"
    "soft n2 \<longrightarrow> cells h2 (errors n2) = cells h (errors n2)"
    using fields by auto
  have "thrown (call rt c n2 h2) = thrown (call rt c this h)
    \<and> (soft this \<longrightarrow> getErrors n2 (snd (call rt c n2 h2)) = getErrors this (snd (call rt c this h)))"
  proof (cases rule: call_verdict[of "target this" "negated this" rt c])
    case pass
    from pass[of this h] pass[OF fields(2,1), of h2] fields
    show ?thesis by (auto simp: thrown_def getErrors_def)
  next
    case (fail err)
    show ?thesis
    proof (cases "soft this")
      case True
      with fields have "n2 = this" by simp
      with fail[of this h] fail[of this h2] fields(5) True
      show ?thesis
        by (auto simp: handleError_def thrown_def push_def getErrors_def split: option.splits)
    next
      case False
      with fail[of this h] fail[OF fields(2,1), of h2] fields(3)
      show ?thesis by (simp add: handleError_def thrown_def)
    qed
  next
    case (fault e path predicate)
    from fault(3)[of this h] fault(3)[OF fields(2,1), of h2] fields
    show ?thesis by (auto simp: thrown_def getErrors_def)
  qed
  with fields show ?thesis by simp
qed

theorem double_negation_witness:
  "thrown (call no_runtime (ToHaveKey ''bar'') (fst soft_session_not_not) (snd soft_session_not_not))
     = thrown (call no_runtime (ToHaveKey ''bar'') (fst soft_session) (snd soft_session))
   \<and> thrown (call no_runtime (ToHaveKey ''bar'') (fst soft_session) (snd soft_session)) = None
   \<and> getErrors (fst soft_session_not_not)
        (snd (call no_runtime (ToHaveKey ''bar'') (fst soft_session_not_not) (snd soft_session_not_not)))
     = [Error ''Expected key 'bar' to exist'']
   \<and> fst soft_session_not_not = fst soft_session"
proof -
  have a: "errors (fst soft_session) < fresh (snd soft_session)"
    by code_simp
  have n1: "not (fst soft_session) (snd soft_session) = (fst soft_session_not, snd soft_session_not)"
    by (simp add: soft_session_not_def)
  have n2: "not (fst soft_session_not) (snd soft_session_not) = (fst soft_session_not_not, snd soft_session_not_not)"
    by (simp add: soft_session_not_not_def)
  have s: "soft (fst soft_session)"
    by code_simp
  have t: "thrown (call no_runtime (ToHaveKey ''bar'') (fst soft_session) (snd soft_session)) = None"
    by code_simp
  have g: "getErrors (fst soft_session)
        (snd (call no_runtime (ToHaveKey ''bar'') (fst soft_session) (snd soft_session)))
     = [Error ''Expected key 'bar' to exist'']"
    by code_simp
  from double_negation[OF a n1 n2, of no_runtime "ToHaveKey ''bar''"] s
  have eq_thrown: "thrown (call no_runtime (ToHaveKey ''bar'') (fst soft_session_not_not) (snd soft_session_not_not))
       = thrown (call no_runtime (ToHaveKey ''bar'') (fst soft_session) (snd soft_session))"
    and eq_view: "fst soft_session_not_not = fst soft_session"
    and eq_errs: "getErrors (fst soft_session_not_not)
        (snd (call no_runtime (ToHaveKey ''bar'') (fst soft_session_not_not) (snd soft_session_not_not)))
      = getErrors (fst soft_session)
        (snd (call no_runtime (ToHaveKey ''bar'') (fst soft_session) (snd soft_session)))"
    by blast+
  show ?thesis
    by (rule conjI eq_thrown t eq_view trans[OF eq_errs g])+
qed

lemma handleError_appends:
  "handleError this err h = (r, h') \<Longrightarrow>
   cells h' a = cells h a \<or> (a = errors this \<and> r = Inr this \<and> cells h' a = cells h a @ [err])"
  by (auto simp: handleError_def push_def split: if_splits)

lemma call_appends:
  assumes "call rt c this h = (r, h')"
  shows "cells h' a = cells h a \<or> (\<exists>e. a = errors this \<and> r = Inr this \<and> cells h' a = cells h a @ [e])"
proof (cases rule: call_verdict[of "target this" "negated this" rt c])
  case pass
  from pass[of this h] assms show ?thesis by simp
next
  case (fail err)
  from fail[of this h] assms have "handleError this err h = (r, h')" by simp
  from handleError_appends[OF this, of a] show ?thesis by blast
next
  case (fault e path predicate)
  from fault(3)[of this h] assms show ?thesis by simp
qed

text \<open>
  C9. In soft mode \<open>.not\<close> gives an object with the same document, mode, limit and the
  same error array, with the negation flag inverted; building it leaves the recorded
  errors as they are. Under every heap both objects read the same errors. A check called
  on either of them leaves the errors as they are or appends one error at the end, which
  the other one reads too.
\<close>

theorem negated_view_shares_session:
  assumes "soft this" and "errors this < fresh h" and "not this h = (clone, h1)"
  shows "target clone = target this \<and> soft clone \<and> errors clone = errors this
    \<and> maxErrors clone = maxErrors this \<and> negated clone = (\<not> negated this)
    \<and> getErrors this h1 = getErrors this h
    \<and> (\<forall>k. getErrors clone k = getErrors this k)
    \<and> (call rt c clone h1 = (r, h2) \<longrightarrow>
          getErrors this h2 = getErrors this h
        \<or> (\<exists>e. r = Inr clone \<and> getErrors this h2 = getErrors this h @ [e]))
    \<and> (call rt c this h1 = (r, h2) \<longrightarrow>
          getErrors clone h2 = getErrors clone h
        \<or> (\<exists>e. r = Inr this \<and> getErrors clone h2 = getErrors clone h @ [e]))"
proof -
  have c: "clone = this\<lparr>negated := \<not> negated this\<rparr>"
    and h1: "h1 = h\<lparr>cells := (cells h)(fresh h := []), fresh := Suc (fresh h)\<rparr>"
    using assms(1,3) by (simp_all add: not_soft)
  have same: "cells h1 (errors this) = cells h (errors this)"
    using assms(2) h1 by simp
  have one: "call rt c clone h1 = (r, h2) \<longrightarrow>
          getErrors this h2 = getErrors this h
        \<or> (\<exists>e. r = Inr clone \<and> getErrors this h2 = getErrors this h @ [e])"
    using call_appends[of rt c clone h1 r h2 "errors this"] same
    by (auto simp: getErrors_def)
  have two: "call rt c this h1 = (r, h2) \<longrightarrow>
          getErrors clone h2 = getErrors clone h
        \<or> (\<exists>e. r = Inr this \<and> getErrors clone h2 = getErrors clone h @ [e])"
    using call_appends[of rt c this h1 r h2 "errors this"] same c
    by (auto simp: getErrors_def)
  from c same one two show ?thesis
    using assms(1) by (simp add: getErrors_def)
qed

theorem negated_view_shares_session_witness:
  "errors (fst soft_session_not) = errors (fst soft_session)
   \<and> negated (fst soft_session_not)
   \<and> getErrors (fst soft_session)
        (snd (call no_runtime (ToHaveKey ''foo'') (fst soft_session_not) (snd soft_session_not)))
     = [Error ''Expected key 'foo' not to exist'']
   \<and> getErrors (fst soft_session_not)
        (snd (call no_runtime (ToHaveKey ''bar'') (fst soft_session) (snd soft_session_not)))
     = [Error ''Expected key 'bar' to exist'']"
proof -
  have s: "soft (fst soft_session)" and a: "errors (fst soft_session) < fresh (snd soft_session)"
    and ng: "\<not> negated (fst soft_session)"
    by code_simp+
  have n1: "not (fst soft_session) (snd soft_session) = (fst soft_session_not, snd soft_session_not)"
    by (simp add: soft_session_not_def)
  have g1: "getErrors (fst soft_session)
        (snd (call no_runtime (ToHaveKey ''foo'') (fst soft_session_not) (snd soft_session_not)))
     = [Error ''Expected key 'foo' not to exist'']"
    by code_simp
  have g2: "getErrors (fst soft_session)
        (snd (call no_runtime (ToHaveKey ''bar'') (fst soft_session) (snd soft_session_not)))
     = [Error ''Expected key 'bar' to exist'']"
    by code_simp
  show ?thesis
    using negated_view_shares_session[OF s a n1, of no_runtime "ToHaveKey ''foo''"
        "fst (call no_runtime (ToHaveKey ''foo'') (fst soft_session_not) (snd soft_session_not))"
        "snd (call no_runtime (ToHaveKey ''foo'') (fst soft_session_not) (snd soft_session_not))"]
      ng g1 g2
    by simp
qed

text \<open>
  C1. The claim: after \<^verbatim>\<open>a.not.toHaveKey(p)\<close> a further chained \<^verbatim>\<open>.toHaveKey(q)\<close> is
  evaluated unnegated. The code: the check returns the negated clone, so the next check
  in the chain is negated too, and a second \<^verbatim>\<open>.not\<close> switches negation off.
  \<^verbatim>\<open>assertJson({ foo: 1 }).not.toHaveKey("bar").toHaveKey("foo")\<close> throws although
  \<^verbatim>\<open>foo\<close> exists, and the README's own chain on \<^verbatim>\<open>{ score: 42 }\<close> throws at its last
  check.
\<close>

theorem negation_persists_in_chain:
  "fst (chain no_runtime [GetNot, Call (ToHaveKey ''bar''), Call (ToHaveKey ''foo'')]
          (fst strict_session) (snd strict_session))
     = Inl (Error ''Expected key 'foo' not to exist'')
   \<and> fst (chain no_runtime [Call (ToHaveKey ''foo'')] (fst strict_session) (snd strict_session))
     = Inr (fst strict_session)
   \<and> fst (chain no_runtime
            [Call (ToBeGreaterThan ''score'' 10), Call (ToBeLessThan ''score'' 100),
             GetNot, Call (ToBeGreaterThan ''score'' 100), GetNot, Call (ToBeLessThan ''score'' 10)]
            (fst (assertJson (JObj [(''score'', JNum 42)]) None empty_heap))
            (snd (assertJson (JObj [(''score'', JNum 42)]) None empty_heap)))
     = Inl (Error ''Expected value at 'score' to be less than 10, but got 42'')"
  by code_simp

subsection \<open>Matching values\<close>

text \<open>
  C2. The claim: \<open>toMatchValue\<close> passes exactly when the resolved value and the expected
  value are deep-equal, whatever the order of the keys of an object. The code compares
  the two \<^verbatim>\<open>JSON.stringify\<close> texts: \<^verbatim>\<open>{a: 1, b: 2}\<close> and \<^verbatim>\<open>{b: 2, a: 1}\<close> are deep-equal
  and \<open>toMatchValue\<close> throws on them; \<^verbatim>\<open>[undefined]\<close> and \<^verbatim>\<open>[null]\<close> are not deep-equal
  and \<open>toMatchValue\<close> passes on them.
\<close>

theorem toMatchValue_key_order:
  \<open>spec_deep_equal (JObj [(''a'', JNum 1), (''b'', JNum 2)]) (JObj [(''b'', JNum 2), (''a'', JNum 1)])
   \<and> fst (toMatchValue no_runtime
            (fst (assertJson (JObj [(''o'', JObj [(''a'', JNum 1), (''b'', JNum 2)])]) None empty_heap))
            ''o'' (JObj [(''b'', JNum 2), (''a'', JNum 1)]) None
            (snd (assertJson (JObj [(''o'', JObj [(''a'', JNum 1), (''b'', JNum 2)])]) None empty_heap)))
     = Inl (Error ''Expected value at 'o' to equal {"b":2,"a":1}, but got {"a":1,"b":2}'')
   \<and> \<not> spec_deep_equal (JArr [JUndefined]) (JArr [JNull])
   \<and> fst (toMatchValue no_runtime
            (fst (assertJson (JObj [(''xs'', JArr [JUndefined])]) None empty_heap))
            ''xs'' (JArr [JNull]) None
            (snd (assertJson (JObj [(''xs'', JArr [JUndefined])]) None empty_heap)))
     = Inr (fst (assertJson (JObj [(''xs'', JArr [JUndefined])]) None empty_heap))\<close>
  by code_simp

text \<open>
  C10. When the path resolves to \<open>undefined\<close> and the object is not negated,
  \<open>toMatchValue\<close> with the expected value \<open>undefined\<close> passes, with or without options,
  and \<open>toBeOneOf\<close> passes whenever \<open>undefined\<close> is among the candidates.
\<close>

theorem absent_matches_undefined:
  assumes "getValueAtPath rt (target this) path = JUndefined" and "\<not> negated this"
  shows "toMatchValue rt this path JUndefined options h = (Inr this, h)
    \<and> (JUndefined \<in> set values \<longrightarrow> toBeOneOf rt this path values h = (Inr this, h))"
proof -
  have "list_ex (\<lambda>v. JSON_stringify v = JSON_stringify JUndefined) values" if "JUndefined \<in> set values"
    unfolding list_ex_iff using that by (intro bexI[of _ JUndefined]) simp_all
  then show ?thesis
    using assms by (simp add: toMatchValue_def toBeOneOf_def Let_def)
qed


theorem absent_matches_undefined_witness:
  "toMatchValue no_runtime (fst strict_session) ''missing.key'' JUndefined None (snd strict_session)
     = (Inr (fst strict_session), snd strict_session)
   \<and> toBeOneOf no_runtime (fst strict_session) ''missing.key'' [JNull, JUndefined] (snd strict_session)
     = (Inr (fst strict_session), snd strict_session)"
proof -
  have a: "getValueAtPath no_runtime (target (fst strict_session)) ''missing.key'' = JUndefined"
    and n: "\<not> negated (fst strict_session)"
    by code_simp+
  show ?thesis
    using absent_matches_undefined[OF a n, of None "snd strict_session" "[JNull, JUndefined]"]
    by simp
qed


end
